theory Spec2Isabelle
  imports Complex_Main
begin

section \<open>JavaScript values\<close>

text \<open>
  The values that reach the functions of \<^verbatim>\<open>script.js\<close> verified here: \<^verbatim>\<open>undefined\<close>,
  \<^verbatim>\<open>null\<close>, booleans, integral numbers and strings. \<open>truthy\<close> is JavaScript's ToBoolean on
  them (what \<^verbatim>\<open>!x\<close> and \<^verbatim>\<open>x || y\<close> test).
\<close>

datatype jsval = JUndefined | JNull | JBool bool | JNum int | JStr string

fun truthy :: "jsval \<Rightarrow> bool" where
  "truthy JUndefined = False"
| "truthy JNull = False"
| "truthy (JBool b) = b"
| "truthy (JNum n) = (n \<noteq> 0)"
| "truthy (JStr s) = (s \<noteq> [])"

text \<open>\<^verbatim>\<open>a || b\<close>: the left operand when it is truthy, the right one otherwise.\<close>

definition js_or :: "jsval \<Rightarrow> jsval \<Rightarrow> jsval" where
  "js_or a b = (if truthy a then a else b)"

text \<open>
  An options object is the list of its own properties; a name bound more than once reads
  as its first binding. Reading a property the object does not have gives \<^verbatim>\<open>undefined\<close>.
\<close>

type_synonym js_object = "(string \<times> jsval) list"

definition get_prop :: "js_object \<Rightarrow> string \<Rightarrow> jsval" where
  "get_prop obj k = (case map_of obj k of None \<Rightarrow> JUndefined | Some v \<Rightarrow> v)"


section \<open>Small toasts\<close>

text \<open>
  A toast element is the \<^verbatim>\<open>div\<close> made by \<^verbatim>\<open>document.createElement\<close> in \<^verbatim>\<open>showToast\<close>: its class
  name, its text and the inline style assigned to it.
\<close>

record toast_el =
  className :: string
  textContent :: string
  style :: "(string \<times> string) list"

text \<open>
  The state \<^verbatim>\<open>showToast\<close> and \<^verbatim>\<open>removeToast\<close> work on.
  \<^item> \<open>elements\<close> is the store of toast elements: an element's reference is its index, and
    \<^verbatim>\<open>createElement\<close> allocates the next index.
  \<^item> \<open>wrapper\<close> is the part of the document the two functions touch: \<open>None\<close> when the
    document has no element with id \<^verbatim>\<open>vk-toast-wrapper\<close>, otherwise the references of the
    wrapper's children in document order.
  \<^item> \<open>toasts\<close> is the \<^verbatim>\<open>Map\<close> \<^verbatim>\<open>_toasts\<close>, in insertion order, from id to element reference.
  \<^item> \<open>timers\<close> are the callbacks handed to \<^verbatim>\<open>setTimeout\<close> that have not fired yet, in
    scheduling order: the id captured by \<^verbatim>\<open>() => removeToast(id)\<close> and the delay argument.
\<close>

record toast_state =
  wrapper :: "nat list option"
  elements :: "toast_el list"
  toasts :: "(jsval \<times> nat) list"
  timers :: "(jsval \<times> jsval) list"

definition init_state :: toast_state where
  "init_state = \<lparr>wrapper = None, elements = [], toasts = [], timers = []\<rparr>"

text \<open>
  \<^verbatim>\<open>const id = opts.id || `t_${Math.random().toString(36).slice(2,9)}`\<close>; the digits
  \<^verbatim>\<open>Math.random\<close> contributes are the parameter \<open>rnd\<close>.
\<close>

definition toast_id :: "js_object \<Rightarrow> string \<Rightarrow> jsval" where
  "toast_id opts rnd = js_or (get_prop opts ''id'') (JStr (''t_'' @ rnd))"

text \<open>Lines 353--367: the wrapper is looked up and, when the document has none, created empty.\<close>

definition ensure_wrapper :: "toast_state \<Rightarrow> toast_state" where
  "ensure_wrapper s = (case wrapper s of None \<Rightarrow> s\<lparr>wrapper := Some []\<rparr> | Some ch \<Rightarrow> s)"

text \<open>Lines 376--386: the new element.\<close>

definition new_toast_el :: "string \<Rightarrow> js_object \<Rightarrow> toast_el" where
  "new_toast_el message opts =
     \<lparr>className = ''vk-toast'',
      textContent = message,
      style =
        [(''padding'', ''10px 14px''),
         (''background'',
            if get_prop opts ''type'' = JStr ''error''
            then ''linear-gradient(90deg,#ff6b6b,#ff8e8e)''
            else ''linear-gradient(90deg,#00bfff,#7ad6ff)''),
         (''color'', ''#042034''),
         (''borderRadius'', ''10px''),
         (''fontWeight'', ''700''),
         (''boxShadow'', ''0 10px 30px rgba(0,0,0,0.4)'')]\<rparr>"

text \<open>\<^verbatim>\<open>el.textContent = message\<close> on the element behind a reference.\<close>

definition set_textContent :: "nat \<Rightarrow> string \<Rightarrow> toast_el list \<Rightarrow> toast_el list" where
  "set_textContent el message els =
     (if el < length els then els[el := (els ! el)\<lparr>textContent := message\<rparr>] else els)"

text \<open>
  \<^verbatim>\<open>showToast(message, opts)\<close>: returns the id and the new state. An id already in
  \<^verbatim>\<open>_toasts\<close> only has its element's text replaced (lines 369--374). Otherwise an element
  is created, appended to the wrapper and registered, and unless \<^verbatim>\<open>opts.autoClose\<close> is
  \<^verbatim>\<open>false\<close> a timer is scheduled with delay \<^verbatim>\<open>opts.duration || 3000\<close> (lines 376--394).
\<close>

definition showToast :: "string \<Rightarrow> js_object \<Rightarrow> string \<Rightarrow> toast_state \<Rightarrow> jsval \<times> toast_state" where
  "showToast message opts rnd s0 =
     (let tid = toast_id opts rnd;
          s = ensure_wrapper s0
      in case map_of (toasts s) tid of
           Some el \<Rightarrow> (tid, s\<lparr>elements := set_textContent el message (elements s)\<rparr>)
         | None \<Rightarrow>
             (let el = length (elements s);
                  s1 = s\<lparr>elements := elements s @ [new_toast_el message opts]\<rparr>;
                  s2 = s1\<lparr>wrapper := map_option (\<lambda>ch. ch @ [el]) (wrapper s1)\<rparr>;
                  s3 = s2\<lparr>toasts := toasts s2 @ [(tid, el)]\<rparr>;
                  s4 = (if get_prop opts ''autoClose'' \<noteq> JBool False
                        then s3\<lparr>timers := timers s3 @
                                  [(tid, js_or (get_prop opts ''duration'') (JNum 3000))]\<rparr>
                        else s3)
              in (tid, s4)))"

text \<open>
  \<^verbatim>\<open>removeToast(id)\<close>: nothing for a falsy id or an id that is not in \<^verbatim>\<open>_toasts\<close>; otherwise
  \<^verbatim>\<open>el.remove()\<close> takes the element out of its parent and the id is deleted from the map.
\<close>

definition removeToast :: "jsval \<Rightarrow> toast_state \<Rightarrow> toast_state" where
  "removeToast tid s =
     (if \<not> truthy tid then s
      else case map_of (toasts s) tid of
             None \<Rightarrow> s
           | Some el \<Rightarrow>
               s\<lparr>wrapper := map_option (removeAll el) (wrapper s),
                 toasts := filter (\<lambda>p. fst p \<noteq> tid) (toasts s)\<rparr>)"

text \<open>
  What can happen to the toast manager: a call of \<^verbatim>\<open>showToast\<close>, a call of \<^verbatim>\<open>removeToast\<close>
  by the page's code, or a pending timer firing, which takes it off the pending list and
  runs its callback \<^verbatim>\<open>removeToast(id)\<close>. The event loop may fire any pending timer; which
  one and when is the host's business, so \<open>Fire k\<close> names it by its position.
\<close>

datatype event = Show string js_object string | Remove jsval | Fire nat

definition fire :: "nat \<Rightarrow> toast_state \<Rightarrow> toast_state" where
  "fire k s =
     (if k < length (timers s)
      then removeToast (fst (timers s ! k))
             (s\<lparr>timers := take k (timers s) @ drop (Suc k) (timers s)\<rparr>)
      else s)"

fun step :: "event \<Rightarrow> toast_state \<Rightarrow> toast_state" where
  "step (Show message opts rnd) s = snd (showToast message opts rnd s)"
| "step (Remove tid) s = removeToast tid s"
| "step (Fire k) s = fire k s"

fun run :: "event list \<Rightarrow> toast_state \<Rightarrow> toast_state" where
  "run [] s = s"
| "run (e # es) s = run es (step e s)"

text \<open>
  \<open>shows_id tid e\<close>: the event is a call of \<^verbatim>\<open>showToast\<close> whose id comes out as \<open>tid\<close>.
\<close>

definition shows_id :: "jsval \<Rightarrow> event \<Rightarrow> bool" where
  "shows_id tid e =
     (case e of Show message opts rnd \<Rightarrow> toast_id opts rnd = tid
              | Remove t \<Rightarrow> False
              | Fire k \<Rightarrow> False)"

text \<open>The number of pending timers whose callback removes \<open>tid\<close>.\<close>

definition timers_of :: "jsval \<Rightarrow> toast_state \<Rightarrow> nat" where
  "timers_of tid s = length (filter (\<lambda>t. fst t = tid) (timers s))"

text \<open>
  The toast elements in the document are the children of the wrapper, if there is one.
  The consistency of registry, store and document that every reachable state has: the
  toast elements in the document are exactly the registered ones, in registration order,
  no id and no element occurs twice, every registered reference points into the store,
  and every registered id is truthy.
\<close>

definition children :: "toast_state \<Rightarrow> nat list" where
  "children s = (case wrapper s of None \<Rightarrow> [] | Some ch \<Rightarrow> ch)"

definition toasts_inv :: "toast_state \<Rightarrow> bool" where
  "toasts_inv s \<longleftrightarrow>
     children s = map snd (toasts s)
     \<and> distinct (map fst (toasts s))
     \<and> distinct (map snd (toasts s))
     \<and> (\<forall>p \<in> set (toasts s). snd p < length (elements s) \<and> truthy (fst p))"


section \<open>Active navigation link\<close>

text \<open>
  A navigation link as \<^verbatim>\<open>initSmoothScrollAndActiveLinks\<close> sees it: the value of
  \<^verbatim>\<open>getAttribute('href')\<close> (\<open>None\<close> for \<^verbatim>\<open>null\<close>), the tokens of its \<^verbatim>\<open>classList\<close> and the
  string last assigned to \<^verbatim>\<open>style.color\<close>.
\<close>

record nav_link =
  href :: "string option"
  classList :: "string list"
  color :: string

text \<open>
  An \<^verbatim>\<open>IntersectionObserverEntry\<close>: the two fields the callback reads and the id of its
  target element.
\<close>

record observer_entry =
  isIntersecting :: bool
  intersectionRatio :: real
  target_id :: string

text \<open>
  Lines 57--65. The document is the list of the ids its elements carry, and a section
  element is named by its id: \<^verbatim>\<open>getElementById\<close> finds no element for the empty string.
  \<^verbatim>\<open>href.replace('#', '')\<close> deletes the first \<^verbatim>\<open>#\<close> of the string.
\<close>

definition getElementById :: "string list \<Rightarrow> string \<Rightarrow> string option" where
  "getElementById doc i = (if i \<noteq> [] \<and> i \<in> set doc then Some i else None)"

definition startsWith_hash :: "string \<Rightarrow> bool" where
  "startsWith_hash h = (case h of [] \<Rightarrow> False | c # cs \<Rightarrow> c = CHR ''#'')"

definition link_section :: "string list \<Rightarrow> nav_link \<Rightarrow> string option" where
  "link_section doc l =
     (let h = (case href l of None \<Rightarrow> [] | Some h' \<Rightarrow> h')
      in if \<not> startsWith_hash h then None
         else getElementById doc (remove1 (CHR ''#'') h))"

definition sections :: "string list \<Rightarrow> nav_link list \<Rightarrow> string list" where
  "sections doc links = List.map_filter (link_section doc) links"

text \<open>
  \<^verbatim>\<open>entries.filter(e => e.isIntersecting).sort((a, b) => b.intersectionRatio - a.intersectionRatio)[0]\<close>.
  \<^verbatim>\<open>Array.prototype.sort\<close> is stable; \<open>sort_by\<close> is the stable insertion sort under a
  comparator, which puts \<open>a\<close> before \<open>b\<close> when \<open>cmp a b \<le> 0\<close>. Indexing the empty array
  gives \<^verbatim>\<open>undefined\<close>, here \<open>None\<close>.
\<close>

definition by_ratio_desc :: "observer_entry \<Rightarrow> observer_entry \<Rightarrow> real" where
  "by_ratio_desc a b = intersectionRatio b - intersectionRatio a"

fun insert_by :: "('a \<Rightarrow> 'a \<Rightarrow> real) \<Rightarrow> 'a \<Rightarrow> 'a list \<Rightarrow> 'a list" where
  "insert_by cmp x [] = [x]"
| "insert_by cmp x (y # ys) = (if cmp x y \<le> 0 then x # y # ys else y # insert_by cmp x ys)"

definition sort_by :: "('a \<Rightarrow> 'a \<Rightarrow> real) \<Rightarrow> 'a list \<Rightarrow> 'a list" where
  "sort_by cmp xs = foldr (insert_by cmp) xs []"

definition most_visible :: "observer_entry list \<Rightarrow> observer_entry option" where
  "most_visible entries =
     (case sort_by by_ratio_desc (filter isIntersecting entries) of
        [] \<Rightarrow> None
      | v # rest \<Rightarrow> Some v)"

text \<open>\<^verbatim>\<open>classList.add\<close> and \<^verbatim>\<open>classList.remove\<close> on the token list.\<close>

definition classList_add :: "string \<Rightarrow> string list \<Rightarrow> string list" where
  "classList_add c cl = (if c \<in> set cl then cl else cl @ [c])"

definition classList_remove :: "string \<Rightarrow> string list \<Rightarrow> string list" where
  "classList_remove c cl = removeAll c cl"

definition is_active :: "nav_link \<Rightarrow> bool" where
  "is_active l \<longleftrightarrow> ''active'' \<in> set (classList l)"

text \<open>
  Lines 101--109, the body of \<^verbatim>\<open>links.forEach\<close> for one link. \<open>blue\<close> is what
  \<^verbatim>\<open>getComputedStyle(document.documentElement).getPropertyValue('--electric-blue')\<close>
  returns; \<^verbatim>\<open>blue || ''\<close> is \<open>blue\<close> itself, as the only falsy string is the empty one.
\<close>

definition update_link :: "string \<Rightarrow> string \<Rightarrow> nav_link \<Rightarrow> nav_link" where
  "update_link blue sid l =
     (if href l = Some (CHR ''#'' # sid)
      then l\<lparr>classList := classList_add ''active'' (classList l), color := blue\<rparr>
      else l\<lparr>classList := classList_remove ''active'' (classList l), color := []\<rparr>)"

text \<open>Lines 93--110: the observer's callback, on the links collected at initialisation.\<close>

definition observer_callback :: "string \<Rightarrow> observer_entry list \<Rightarrow> nav_link list \<Rightarrow> nav_link list" where
  "observer_callback blue entries links =
     (case most_visible entries of
        None \<Rightarrow> links
      | Some visible \<Rightarrow> map (update_link blue (target_id visible)) links)"

text \<open>The callback run on one batch of entries after the other.\<close>

fun observe :: "string \<Rightarrow> observer_entry list list \<Rightarrow> nav_link list \<Rightarrow> nav_link list" where
  "observe blue [] links = links"
| "observe blue (entries # rest) links = observe blue rest (observer_callback blue entries links)"



section \<open>Utilities\<close>

text \<open>
  \<^verbatim>\<open>String(str)\<close> on the values of \<open>jsval\<close>: a number prints in decimal, with a minus sign
  when negative. This is what JavaScript prints for the integers a double holds exactly
  (magnitude up to \<open>2^53\<close>); beyond them \<^verbatim>\<open>String\<close> rounds, and from \<open>10^21\<close> on it
  switches to exponent notation, which is left out here. The results below are about
  string arguments, where \<^verbatim>\<open>String\<close> changes nothing.
\<close>

fun digits :: "nat \<Rightarrow> string" where
  "digits n = (if n < 10 then [char_of (48 + n)] else digits (n div 10) @ [char_of (48 + n mod 10)])"

fun js_String :: "jsval \<Rightarrow> string" where
  "js_String JUndefined = ''undefined''"
| "js_String JNull = ''null''"
| "js_String (JBool b) = (if b then ''true'' else ''false'')"
| "js_String (JNum n) = (if n < 0 then CHR ''-'' # digits (nat (- n)) else digits (nat n))"
| "js_String (JStr s) = s"

text \<open>\<^verbatim>\<open>s.replaceAll(c, r)\<close> for a pattern of one character and a replacement without \<^verbatim>\<open>$\<close>.\<close>

definition replaceAll :: "char \<Rightarrow> string \<Rightarrow> string \<Rightarrow> string" where
  "replaceAll c r s = concat (map (\<lambda>x. if x = c then r else [x]) s)"

text \<open>
  Lines 408--416: a falsy argument gives the empty string, anything else is converted to
  a string and goes through the five replacements, \<^verbatim>\<open>&\<close> first.
\<close>

definition escape_string :: "string \<Rightarrow> string" where
  "escape_string s =
     replaceAll (CHR 0x27) ''&#39;''
       (replaceAll (CHR 0x22) ''&quot;''
         (replaceAll (CHR ''>'') ''&gt;''
           (replaceAll (CHR ''<'') ''&lt;''
             (replaceAll (CHR ''&'') ''&amp;'' s))))"

definition escapeHtml :: "jsval \<Rightarrow> string" where
  "escapeHtml str = (if \<not> truthy str then [] else escape_string (js_String str))"

text \<open>The five entity sequences \<^verbatim>\<open>escapeHtml\<close> writes.\<close>

definition entities :: "string list" where
  "entities = [''&amp;'', ''&lt;'', ''&gt;'', ''&quot;'', ''&#39;'']"


text \<open>
  \<open>amp_ok out\<close>: at every position of \<open>out\<close> that holds \<^verbatim>\<open>&\<close>, one of the entity sequences
  starts.
\<close>

definition amp_ok :: "string \<Rightarrow> bool" where
  "amp_ok out \<longleftrightarrow>
     (\<forall>i < length out. out ! i = CHR ''&'' \<longrightarrow>
        (\<exists>e \<in> set entities. take (length e) (drop i out) = e))"


section \<open>Properties of the toast manager\<close>

lemma map_of_filter_gone:
  "map_of (filter (\<lambda>p. fst p \<noteq> k) xs) k = None"
  by (induction xs) auto

lemma map_of_filter_other:
  "k' \<noteq> k \<Longrightarrow> map_of (filter (\<lambda>p. fst p \<noteq> k) xs) k' = map_of xs k'"
  by (induction xs) auto

lemma toast_id_truthy: "truthy (toast_id opts rnd)"
  by (simp add: toast_id_def js_or_def)

lemma removeAll_registered:
  "distinct (map fst xs) \<Longrightarrow> distinct (map snd xs) \<Longrightarrow> map_of xs k = Some v \<Longrightarrow>
   removeAll v (map snd xs) = map snd (filter (\<lambda>p. fst p \<noteq> k) xs)"
proof (induction xs)
  case Nil
  then show ?case by simp
next
  case (Cons p xs)
  show ?case
  proof (cases "fst p = k")
    case True
    with Cons.prems have v: "snd p = v" by (cases p) simp
    from Cons.prems True have "k \<notin> fst ` set xs" by auto
    then have same: "filter (\<lambda>q. fst q \<noteq> k) xs = xs"
      by (auto simp: filter_id_conv)
    from Cons.prems v have "v \<notin> set (map snd xs)" by auto
    then have "removeAll v (map snd xs) = map snd xs"
      by (simp add: removeAll_id)
    with True v same show ?thesis by simp
  next
    case False
    with Cons.prems have look: "map_of xs k = Some v" by (cases p) auto
    then have "v \<in> snd ` set xs" by (metis map_of_SomeD imageI snd_conv)
    with Cons.prems have "snd p \<noteq> v" by auto
    with False Cons.IH look Cons.prems show ?thesis by simp
  qed
qed

text \<open>
  The invariant holds on the fresh page and is kept by every event, so it holds in every
  state the page can reach.
\<close>

lemma inv_init: "toasts_inv init_state"
  by (simp add: toasts_inv_def init_state_def children_def)

lemma ensure_wrapper_fields:
  "toasts (ensure_wrapper s) = toasts s"
  "elements (ensure_wrapper s) = elements s"
  "timers (ensure_wrapper s) = timers s"
  "children (ensure_wrapper s) = children s"
  "wrapper (ensure_wrapper s) = Some (children s)"
  by (auto simp: ensure_wrapper_def children_def split: option.splits)

lemma ensure_wrapper_id: "wrapper s = Some ch \<Longrightarrow> ensure_wrapper s = s"
  by (simp add: ensure_wrapper_def)

lemma registered_wrapper:
  "toasts_inv s \<Longrightarrow> map_of (toasts s) k = Some el \<Longrightarrow> wrapper s = Some (children s)"
  by (cases "wrapper s") (auto simp: toasts_inv_def children_def)

lemma length_set_textContent: "length (set_textContent el m els) = length els"
  by (simp add: set_textContent_def)

lemma showToast_existing:
  "map_of (toasts s) (toast_id opts rnd) = Some el \<Longrightarrow>
   showToast m opts rnd s =
     (toast_id opts rnd, (ensure_wrapper s)\<lparr>elements := set_textContent el m (elements s)\<rparr>)"
  by (simp add: showToast_def Let_def ensure_wrapper_fields)

lemma showToast_new:
  "map_of (toasts s) (toast_id opts rnd) = None \<Longrightarrow>
   showToast m opts rnd s =
     (toast_id opts rnd,
      \<lparr>wrapper = Some (children s @ [length (elements s)]),
       elements = elements s @ [new_toast_el m opts],
       toasts = toasts s @ [(toast_id opts rnd, length (elements s))],
       timers = (if get_prop opts ''autoClose'' \<noteq> JBool False
                 then timers s @ [(toast_id opts rnd, js_or (get_prop opts ''duration'') (JNum 3000))]
                 else timers s)\<rparr>)"
  by (simp add: showToast_def Let_def ensure_wrapper_fields)

lemma inv_showToast: "toasts_inv s \<Longrightarrow> toasts_inv (snd (showToast m opts rnd s))"
proof (cases "map_of (toasts s) (toast_id opts rnd)")
  case (Some el)
  assume "toasts_inv s"
  with Some show ?thesis
    by (simp add: showToast_existing toasts_inv_def ensure_wrapper_fields
        length_set_textContent children_def)
next
  case None
  assume inv: "toasts_inv s"
  from None have fresh_id: "toast_id opts rnd \<notin> fst ` set (toasts s)"
    by (simp add: map_of_eq_None_iff)
  have fresh_el: "length (elements s) \<notin> snd ` set (toasts s)"
    using inv by (auto simp: toasts_inv_def)
  show ?thesis using None inv fresh_id fresh_el toast_id_truthy [of opts rnd]
    by (auto simp: showToast_new toasts_inv_def less_Suc_eq children_def)
qed

lemma removeToast_registered:
  "truthy tid \<Longrightarrow> map_of (toasts s) tid = Some el \<Longrightarrow>
   removeToast tid s =
     s\<lparr>wrapper := map_option (removeAll el) (wrapper s),
       toasts := filter (\<lambda>p. fst p \<noteq> tid) (toasts s)\<rparr>"
  by (simp add: removeToast_def)

lemma removeToast_unregistered:
  "map_of (toasts s) tid = None \<Longrightarrow> removeToast tid s = s"
  by (simp add: removeToast_def)

lemma children_removeToast:
  "toasts_inv s \<Longrightarrow> children (removeToast tid s) = map snd (toasts (removeToast tid s))"
proof (cases "truthy tid")
  case False
  assume "toasts_inv s"
  with False show ?thesis by (simp add: removeToast_def toasts_inv_def)
next
  case True
  assume inv: "toasts_inv s"
  show ?thesis
  proof (cases "map_of (toasts s) tid")
    case None
    with inv show ?thesis by (simp add: removeToast_def toasts_inv_def)
  next
    case (Some el)
    from inv have d: "distinct (map fst (toasts s))" "distinct (map snd (toasts s))"
      by (simp_all add: toasts_inv_def)
    have w: "wrapper s = Some (map snd (toasts s))"
      using registered_wrapper [OF inv Some] inv by (simp add: toasts_inv_def)
    have r: "removeAll el (map snd (toasts s)) = map snd (filter (\<lambda>p. fst p \<noteq> tid) (toasts s))"
      using d Some by (rule removeAll_registered)
    show ?thesis using True Some w r
      by (simp add: removeToast_registered children_def)
  qed
qed

lemma inv_removeToast: "toasts_inv s \<Longrightarrow> toasts_inv (removeToast tid s)"
proof -
  assume inv: "toasts_inv s"
  have t: "toasts (removeToast tid s) = toasts s
           \<or> toasts (removeToast tid s) = filter (\<lambda>p. fst p \<noteq> tid) (toasts s)"
    by (simp add: removeToast_def split: option.splits)
  have e: "elements (removeToast tid s) = elements s"
    by (simp add: removeToast_def split: option.splits)
  from t inv have "distinct (map fst (toasts (removeToast tid s)))"
    "distinct (map snd (toasts (removeToast tid s)))"
    "\<forall>p \<in> set (toasts (removeToast tid s)). snd p < length (elements s) \<and> truthy (fst p)"
    by (auto simp: toasts_inv_def distinct_map_filter)
  with children_removeToast [OF inv, of tid] e show ?thesis
    by (simp add: toasts_inv_def)
qed

lemma inv_timers_update: "toasts_inv (s\<lparr>timers := ts\<rparr>) = toasts_inv s"
  by (simp add: toasts_inv_def children_def)

lemma inv_fire: "toasts_inv s \<Longrightarrow> toasts_inv (fire k s)"
  by (simp add: fire_def inv_removeToast inv_timers_update)

lemma inv_step: "toasts_inv s \<Longrightarrow> toasts_inv (step e s)"
  by (cases e) (simp_all add: inv_showToast inv_removeToast inv_fire)

lemma inv_run: "toasts_inv s \<Longrightarrow> toasts_inv (run es s)"
  by (induction es arbitrary: s) (simp_all add: inv_step)


lemma map_of_filter_None:
  "map_of xs k = None \<Longrightarrow> map_of (filter P xs) k = None"
  by (induction xs) (auto split: if_splits)

lemma removeToast_keeps_unregistered:
  "map_of (toasts s) tid = None \<Longrightarrow> map_of (toasts (removeToast t s)) tid = None"
  by (simp add: removeToast_def map_of_filter_None split: option.splits)

lemma removeToast_unregisters:
  "toasts_inv s \<Longrightarrow> map_of (toasts (removeToast tid s)) tid = None"
proof (cases "map_of (toasts s) tid")
  case None
  then show ?thesis by (simp add: removeToast_keeps_unregistered)
next
  case (Some el)
  assume "toasts_inv s"
  moreover from Some have "(tid, el) \<in> set (toasts s)" by (rule map_of_SomeD)
  ultimately have "truthy tid" by (auto simp: toasts_inv_def)
  with Some show ?thesis by (simp add: removeToast_registered map_of_filter_gone)
qed

lemma removeToast_frame:
  "elements (removeToast t s) = elements s" "timers (removeToast t s) = timers s"
  by (simp_all add: removeToast_def split: option.splits)

lemma fire_unregistered:
  "k < length (timers s) \<Longrightarrow> map_of (toasts s) (fst (timers s ! k)) = None \<Longrightarrow>
   fire k s = s\<lparr>timers := take k (timers s) @ drop (Suc k) (timers s)\<rparr>"
  by (simp add: fire_def removeToast_def)

lemma step_keeps_unregistered:
  "map_of (toasts s) tid = None \<Longrightarrow> \<not> shows_id tid e \<Longrightarrow> map_of (toasts (step e s)) tid = None"
proof (cases e)
  case (Show m opts rnd)
  assume un: "map_of (toasts s) tid = None" and "\<not> shows_id tid e"
  with Show have other: "toast_id opts rnd \<noteq> tid" by (simp add: shows_id_def)
  show ?thesis
  proof (cases "map_of (toasts s) (toast_id opts rnd)")
    case None
    with un other Show show ?thesis by (simp add: showToast_new map_add_def)
  next
    case (Some el)
    with un Show show ?thesis by (simp add: showToast_existing ensure_wrapper_fields)
  qed
next
  case (Remove t)
  assume "map_of (toasts s) tid = None"
  with Remove show ?thesis by (simp add: removeToast_keeps_unregistered)
next
  case (Fire k)
  assume "map_of (toasts s) tid = None"
  with Fire show ?thesis by (simp add: fire_def removeToast_keeps_unregistered)
qed

lemma run_keeps_unregistered:
  "map_of (toasts s) tid = None \<Longrightarrow> \<forall>e \<in> set es. \<not> shows_id tid e \<Longrightarrow>
   map_of (toasts (run es s)) tid = None"
  by (induction es arbitrary: s) (simp_all add: step_keeps_unregistered)

text \<open>
  Claim C2, as amended. After \<^verbatim>\<open>removeToast(id)\<close> in a reachable state, and after any further
  events among which no \<^verbatim>\<open>showToast\<close> call has this id, a pending timer for the id that
  fires leaves the registry, the document and the element store as they are. (The source
  never cancels a timer: a timer firing runs \<^verbatim>\<open>removeToast(id)\<close>, which only looks the id
  up. With an entry registered again under the id, the timer removes it; see the
  counterexample below.)
\<close>

theorem stale_timer_after_remove:
  assumes "toasts_inv s"
    and "\<forall>e \<in> set es. \<not> shows_id tid e"
    and "k < length (timers (run es (removeToast tid s)))"
    and "fst (timers (run es (removeToast tid s)) ! k) = tid"
  shows "toasts (fire k (run es (removeToast tid s))) = toasts (run es (removeToast tid s))
       \<and> wrapper (fire k (run es (removeToast tid s))) = wrapper (run es (removeToast tid s))
       \<and> elements (fire k (run es (removeToast tid s))) = elements (run es (removeToast tid s))"
proof -
  let ?s = "run es (removeToast tid s)"
  have "map_of (toasts (removeToast tid s)) tid = None"
    using assms(1) by (rule removeToast_unregisters)
  then have "map_of (toasts ?s) tid = None"
    using assms(2) by (rule run_keeps_unregistered)
  with assms(3,4) have "fire k ?s = ?s\<lparr>timers := take k (timers ?s) @ drop (Suc k) (timers ?s)\<rparr>"
    by (simp add: fire_unregistered)
  then show ?thesis by simp
qed


lemma registered_once:
  "distinct (map fst xs) \<Longrightarrow> map_of xs k = Some v \<Longrightarrow>
   length (filter (\<lambda>p. fst p = k) xs) = 1"
proof (induction xs)
  case Nil
  then show ?case by simp
next
  case (Cons p xs)
  show ?case
  proof (cases "fst p = k")
    case True
    with Cons.prems have "k \<notin> fst ` set xs" by auto
    then have "filter (\<lambda>q. fst q = k) xs = []"
      by (auto simp: filter_empty_conv)
    with True show ?thesis by simp
  next
    case False
    with Cons show ?thesis by (cases p) auto
  qed
qed

lemma attached_once:
  "distinct ch \<Longrightarrow> el \<in> set ch \<Longrightarrow> length (filter (\<lambda>c. c = el) ch) = 1"
  by (induction ch) (auto simp: filter_empty_conv)

lemma showToast_fst: "fst (showToast m opts rnd s) = toast_id opts rnd"
  by (simp add: showToast_def Let_def split: option.splits)

lemma showToast_registers:
  "\<exists>el. map_of (toasts (snd (showToast m opts rnd s))) (toast_id opts rnd) = Some el"
proof (cases "map_of (toasts s) (toast_id opts rnd)")
  case None
  then show ?thesis by (simp add: showToast_new map_add_def)
next
  case (Some el)
  then show ?thesis by (simp add: showToast_existing ensure_wrapper_fields)
qed

lemma showToast_update:
  assumes "toasts_inv s" and "map_of (toasts s) (toast_id opts rnd) = Some el"
  shows "showToast m opts rnd s =
           (toast_id opts rnd, s\<lparr>elements := (elements s)[el := (elements s ! el)\<lparr>textContent := m\<rparr>]\<rparr>)"
proof -
  have "ensure_wrapper s = s"
    using registered_wrapper [OF assms] by (rule ensure_wrapper_id)
  moreover from assms(2) have "(toast_id opts rnd, el) \<in> set (toasts s)"
    by (rule map_of_SomeD)
  with assms(1) have "el < length (elements s)" by (auto simp: toasts_inv_def)
  ultimately show ?thesis using assms(2)
    by (simp add: showToast_existing set_textContent_def)
qed

text \<open>
  Claim C1. When \<^verbatim>\<open>showToast\<close> is called with an id that is already registered, the state
  after the call is the state before it with the text of that id's element replaced: the
  same id is returned, the wrapper and the registry are what they were, so no element was
  created, and the pending timers are what they were, so none was scheduled. After two
  calls in a row whose ids come out equal, from any reachable state, the registry has one
  entry for the id, its element is in the wrapper once, and it shows the second message.
\<close>

theorem showToast_existing_id:
  assumes "toasts_inv s"
  shows "(map_of (toasts s) (toast_id opts rnd) = Some el \<longrightarrow>
            showToast message opts rnd s =
              (toast_id opts rnd,
               s\<lparr>elements := (elements s)[el := (elements s ! el)\<lparr>textContent := message\<rparr>]\<rparr>))
       \<and> (toast_id opts2 rnd2 = toast_id opts rnd \<longrightarrow>
            (\<exists>el2.
               showToast message2 opts2 rnd2 (snd (showToast message opts rnd s)) =
                 (toast_id opts rnd,
                  (snd (showToast message opts rnd s))
                    \<lparr>elements := (elements (snd (showToast message opts rnd s)))
                       [el2 := (elements (snd (showToast message opts rnd s)) ! el2)
                                 \<lparr>textContent := message2\<rparr>]\<rparr>)
               \<and> length (filter (\<lambda>p. fst p = toast_id opts rnd)
                    (toasts (snd (showToast message2 opts2 rnd2 (snd (showToast message opts rnd s)))))) = 1
               \<and> map_of (toasts (snd (showToast message2 opts2 rnd2 (snd (showToast message opts rnd s)))))
                    (toast_id opts rnd) = Some el2
               \<and> length (filter (\<lambda>c. c = el2)
                    (children (snd (showToast message2 opts2 rnd2 (snd (showToast message opts rnd s)))))) = 1
               \<and> textContent
                    (elements (snd (showToast message2 opts2 rnd2 (snd (showToast message opts rnd s)))) ! el2)
                  = message2))"
proof (intro conjI impI)
  assume "map_of (toasts s) (toast_id opts rnd) = Some el"
  with assms show "showToast message opts rnd s =
      (toast_id opts rnd,
       s\<lparr>elements := (elements s)[el := (elements s ! el)\<lparr>textContent := message\<rparr>]\<rparr>)"
    by (rule showToast_update)
next
  assume same: "toast_id opts2 rnd2 = toast_id opts rnd"
  let ?s1 = "snd (showToast message opts rnd s)"
  have inv1: "toasts_inv ?s1" using assms by (rule inv_showToast)
  obtain el2 where reg: "map_of (toasts ?s1) (toast_id opts rnd) = Some el2"
    using showToast_registers by blast
  then have reg2: "map_of (toasts ?s1) (toast_id opts2 rnd2) = Some el2"
    using same by simp
  have upd: "showToast message2 opts2 rnd2 ?s1 =
      (toast_id opts rnd,
       ?s1\<lparr>elements := (elements ?s1)[el2 := (elements ?s1 ! el2)\<lparr>textContent := message2\<rparr>]\<rparr>)"
    using showToast_update [OF inv1 reg2] same by simp
  from reg have mem: "(toast_id opts rnd, el2) \<in> set (toasts ?s1)" by (rule map_of_SomeD)
  with inv1 have lt: "el2 < length (elements ?s1)" by (auto simp: toasts_inv_def)
  from inv1 have d1: "distinct (map fst (toasts ?s1))" and d2: "distinct (children ?s1)"
    and ch: "children ?s1 = map snd (toasts ?s1)"
    by (simp_all add: toasts_inv_def)
  from mem ch have "el2 \<in> set (children ?s1)" by force
  with d2 have once: "length (filter (\<lambda>c. c = el2) (children ?s1)) = 1"
    by (rule attached_once)
  have one: "length (filter (\<lambda>p. fst p = toast_id opts rnd) (toasts ?s1)) = 1"
    using d1 reg by (rule registered_once)
  show "\<exists>el2.
      showToast message2 opts2 rnd2 ?s1 =
        (toast_id opts rnd,
         ?s1\<lparr>elements := (elements ?s1)[el2 := (elements ?s1 ! el2)\<lparr>textContent := message2\<rparr>]\<rparr>)
      \<and> length (filter (\<lambda>p. fst p = toast_id opts rnd)
           (toasts (snd (showToast message2 opts2 rnd2 ?s1)))) = 1
      \<and> map_of (toasts (snd (showToast message2 opts2 rnd2 ?s1))) (toast_id opts rnd) = Some el2
      \<and> length (filter (\<lambda>c. c = el2) (children (snd (showToast message2 opts2 rnd2 ?s1)))) = 1
      \<and> textContent (elements (snd (showToast message2 opts2 rnd2 ?s1)) ! el2) = message2"
    using upd reg one once lt by (intro exI [of _ el2]) (simp add: children_def)
qed


lemmas toast_eval =
  showToast_def removeToast_def fire_def Let_def ensure_wrapper_def init_state_def toast_id_def
  js_or_def get_prop_def new_toast_el_def set_textContent_def toasts_inv_def children_def

text \<open>
  The scenario of the specification: \<^verbatim>\<open>show("Sending", {id: "x"})\<close> on the fresh page, then
  \<^verbatim>\<open>show("Done", {id: "x"})\<close>.
\<close>

theorem showToast_existing_id_witness:
  "toasts_inv (snd (showToast ''Sending'' [(''id'', JStr ''x'')] ''r'' init_state))
   \<and> map_of (toasts (snd (showToast ''Sending'' [(''id'', JStr ''x'')] ''r'' init_state)))
         (toast_id [(''id'', JStr ''x'')] ''q'') = Some 0
   \<and> fst (showToast ''Done'' [(''id'', JStr ''x'')] ''q''
         (snd (showToast ''Sending'' [(''id'', JStr ''x'')] ''r'' init_state))) = JStr ''x''
   \<and> map textContent (elements (snd (showToast ''Done'' [(''id'', JStr ''x'')] ''q''
         (snd (showToast ''Sending'' [(''id'', JStr ''x'')] ''r'' init_state))))) = [''Done'']
   \<and> wrapper (snd (showToast ''Done'' [(''id'', JStr ''x'')] ''q''
         (snd (showToast ''Sending'' [(''id'', JStr ''x'')] ''r'' init_state)))) = Some [0]
   \<and> toasts (snd (showToast ''Done'' [(''id'', JStr ''x'')] ''q''
         (snd (showToast ''Sending'' [(''id'', JStr ''x'')] ''r'' init_state)))) = [(JStr ''x'', 0)]
   \<and> timers (snd (showToast ''Done'' [(''id'', JStr ''x'')] ''q''
         (snd (showToast ''Sending'' [(''id'', JStr ''x'')] ''r'' init_state)))) = [(JStr ''x'', JNum 3000)]"
  using showToast_existing_id
    [of "snd (showToast ''Sending'' [(''id'', JStr ''x'')] ''r'' init_state)"
        "[(''id'', JStr ''x'')]" "''q''" 0 "''Done''" "[(''id'', JStr ''x'')]" "''q''" "''Done''"]
  by (simp add: toast_eval)

text \<open>
  A toast \<^verbatim>\<open>x\<close> is shown and removed, another toast without id is shown, then the timer of
  \<^verbatim>\<open>x\<close> fires: the other toast is still there.
\<close>

theorem stale_timer_after_remove_witness:
  "toasts_inv (snd (showToast ''Saved'' [(''id'', JStr ''x'')] ''r'' init_state))
   \<and> \<not> shows_id (JStr ''x'') (Show ''Other'' [] ''abc'')
   \<and> timers (run [Show ''Other'' [] ''abc'']
        (removeToast (JStr ''x'') (snd (showToast ''Saved'' [(''id'', JStr ''x'')] ''r'' init_state))))
       = [(JStr ''x'', JNum 3000), (JStr ''t_abc'', JNum 3000)]
   \<and> toasts (fire 0 (run [Show ''Other'' [] ''abc'']
        (removeToast (JStr ''x'') (snd (showToast ''Saved'' [(''id'', JStr ''x'')] ''r'' init_state)))))
       = [(JStr ''t_abc'', 1)]
   \<and> wrapper (fire 0 (run [Show ''Other'' [] ''abc'']
        (removeToast (JStr ''x'') (snd (showToast ''Saved'' [(''id'', JStr ''x'')] ''r'' init_state)))))
       = Some [1]"
  using stale_timer_after_remove
    [of "snd (showToast ''Saved'' [(''id'', JStr ''x'')] ''r'' init_state)"
        "[Show ''Other'' [] ''abc'']" "JStr ''x''" 0]
  by (simp add: toast_eval shows_id_def)

text \<open>
  Claim C2 as stated fails: \<^verbatim>\<open>x\<close> is shown with the default auto-close, removed, and shown
  again with \<^verbatim>\<open>autoClose: false\<close>. The timer of the first call is still pending, and when it
  fires the new entry leaves the registry and the wrapper.
\<close>

theorem stale_timer_removes_recreated_entry:
  "toasts (run [Show ''Saved'' [(''id'', JStr ''x'')] ''r'',
                Remove (JStr ''x''),
                Show ''Sending'' [(''id'', JStr ''x''), (''autoClose'', JBool False)] ''r'']
             init_state) = [(JStr ''x'', 1)]
   \<and> wrapper (run [Show ''Saved'' [(''id'', JStr ''x'')] ''r'',
                Remove (JStr ''x''),
                Show ''Sending'' [(''id'', JStr ''x''), (''autoClose'', JBool False)] ''r'']
             init_state) = Some [1]
   \<and> timers (run [Show ''Saved'' [(''id'', JStr ''x'')] ''r'',
                Remove (JStr ''x''),
                Show ''Sending'' [(''id'', JStr ''x''), (''autoClose'', JBool False)] ''r'']
             init_state) = [(JStr ''x'', JNum 3000)]
   \<and> toasts (fire 0 (run [Show ''Saved'' [(''id'', JStr ''x'')] ''r'',
                Remove (JStr ''x''),
                Show ''Sending'' [(''id'', JStr ''x''), (''autoClose'', JBool False)] ''r'']
             init_state)) = []
   \<and> wrapper (fire 0 (run [Show ''Saved'' [(''id'', JStr ''x'')] ''r'',
                Remove (JStr ''x''),
                Show ''Sending'' [(''id'', JStr ''x''), (''autoClose'', JBool False)] ''r'']
             init_state)) = Some []"
  by (simp add: toast_eval)


text \<open>
  Claim C10. A call of \<^verbatim>\<open>showToast\<close> with an id that is already registered changes the text
  of the registered element and nothing else: its style and class name, the other
  elements, the registry, the wrapper and the pending timers are what they were, and the
  call's options have no influence beyond the id: any other options and random digits
  that give the same id give the same result.
\<close>

theorem showToast_update_frame:
  assumes "toasts_inv s"
    and "map_of (toasts s) (toast_id opts rnd) = Some el"
  shows "timers (snd (showToast message opts rnd s)) = timers s
       \<and> toasts (snd (showToast message opts rnd s)) = toasts s
       \<and> wrapper (snd (showToast message opts rnd s)) = wrapper s
       \<and> elements (snd (showToast message opts rnd s)) =
           (elements s)[el := (elements s ! el)\<lparr>textContent := message\<rparr>]
       \<and> style (elements (snd (showToast message opts rnd s)) ! el) = style (elements s ! el)
       \<and> className (elements (snd (showToast message opts rnd s)) ! el) = className (elements s ! el)
       \<and> (toast_id opts' rnd' = toast_id opts rnd \<longrightarrow>
            showToast message opts' rnd' s = showToast message opts rnd s)"
proof -
  from assms(2) have "(toast_id opts rnd, el) \<in> set (toasts s)" by (rule map_of_SomeD)
  with assms(1) have lt: "el < length (elements s)" by (auto simp: toasts_inv_def)
  have upd: "showToast message opts rnd s =
      (toast_id opts rnd, s\<lparr>elements := (elements s)[el := (elements s ! el)\<lparr>textContent := message\<rparr>]\<rparr>)"
    using assms by (rule showToast_update)
  have "showToast message opts' rnd' s = showToast message opts rnd s"
    if "toast_id opts' rnd' = toast_id opts rnd"
  proof -
    from that assms(2) have "map_of (toasts s) (toast_id opts' rnd') = Some el" by simp
    with assms(1) have "showToast message opts' rnd' s =
      (toast_id opts' rnd', s\<lparr>elements := (elements s)[el := (elements s ! el)\<lparr>textContent := message\<rparr>]\<rparr>)"
      by (rule showToast_update)
    with upd that show ?thesis by simp
  qed
  with upd lt show ?thesis by simp
qed

text \<open>
  An update that passes \<^verbatim>\<open>type: 'error'\<close> and \<^verbatim>\<open>autoClose: false\<close>: the background stays the
  blue one of the first call, and the timer of the first call stays pending.
\<close>

theorem showToast_update_frame_witness:
  "toasts_inv (snd (showToast ''Saved'' [(''id'', JStr ''x'')] ''r'' init_state))
   \<and> map_of (toasts (snd (showToast ''Saved'' [(''id'', JStr ''x'')] ''r'' init_state)))
         (toast_id [(''id'', JStr ''x''), (''type'', JStr ''error''), (''autoClose'', JBool False)] ''q'')
       = Some 0
   \<and> timers (snd (showToast ''Failed''
         [(''id'', JStr ''x''), (''type'', JStr ''error''), (''autoClose'', JBool False)] ''q''
         (snd (showToast ''Saved'' [(''id'', JStr ''x'')] ''r'' init_state))))
       = [(JStr ''x'', JNum 3000)]
   \<and> map_of (style (elements (snd (showToast ''Failed''
         [(''id'', JStr ''x''), (''type'', JStr ''error''), (''autoClose'', JBool False)] ''q''
         (snd (showToast ''Saved'' [(''id'', JStr ''x'')] ''r'' init_state)))) ! 0)) ''background''
       = Some ''linear-gradient(90deg,#00bfff,#7ad6ff)''"
  using showToast_update_frame
    [of "snd (showToast ''Saved'' [(''id'', JStr ''x'')] ''r'' init_state)"
        "[(''id'', JStr ''x''), (''type'', JStr ''error''), (''autoClose'', JBool False)]" "''q''" 0
        "''Failed''"]
  by (simp add: toast_eval)

text \<open>
  Claim C3, as amended. A call of \<^verbatim>\<open>showToast\<close> that creates an entry and whose
  \<^verbatim>\<open>opts.autoClose\<close> is not \<^verbatim>\<open>false\<close> schedules exactly one timer, whose delay is the option
  \<^verbatim>\<open>duration\<close> when that is truthy (a number other than 0) and 3000 otherwise; when that
  timer fires it runs \<^verbatim>\<open>removeToast(id)\<close>, after which the id is not registered and the
  created element is not in the document.
\<close>

theorem showToast_schedules_duration:
  assumes "map_of (toasts s) (toast_id opts rnd) = None"
    and "get_prop opts ''autoClose'' \<noteq> JBool False"
  shows "timers (snd (showToast message opts rnd s)) =
           timers s @ [(toast_id opts rnd,
                        if truthy (get_prop opts ''duration'') then get_prop opts ''duration''
                        else JNum 3000)]
       \<and> fire (length (timers s)) (snd (showToast message opts rnd s)) =
           removeToast (toast_id opts rnd) ((snd (showToast message opts rnd s))\<lparr>timers := timers s\<rparr>)
       \<and> map_of (toasts (snd (showToast message opts rnd s))) (toast_id opts rnd)
           = Some (length (elements s))
       \<and> map_of (toasts (fire (length (timers s)) (snd (showToast message opts rnd s))))
           (toast_id opts rnd) = None
       \<and> length (elements s) \<notin> set (children (fire (length (timers s)) (snd (showToast message opts rnd s))))"
  using assms toast_id_truthy [of opts rnd]
  by (simp add: showToast_new fire_def removeToast_def js_or_def map_add_def
      map_of_filter_gone children_def)

text \<open>\<^verbatim>\<open>showToast("Saved", {id: "x", duration: 100})\<close> on the fresh page.\<close>

theorem showToast_schedules_duration_witness:
  "map_of (toasts init_state) (toast_id [(''id'', JStr ''x''), (''duration'', JNum 100)] ''r'') = None
   \<and> get_prop [(''id'', JStr ''x''), (''duration'', JNum 100)] ''autoClose'' \<noteq> JBool False
   \<and> timers (snd (showToast ''Saved'' [(''id'', JStr ''x''), (''duration'', JNum 100)] ''r'' init_state))
       = [(JStr ''x'', JNum 100)]
   \<and> toasts (fire 0 (snd (showToast ''Saved'' [(''id'', JStr ''x''), (''duration'', JNum 100)] ''r''
         init_state))) = []"
  using showToast_schedules_duration
    [of init_state "[(''id'', JStr ''x''), (''duration'', JNum 100)]" "''r''" "''Saved''"]
  by (simp add: toast_eval)

text \<open>
  Claim C3 as stated fails: an option named \<^verbatim>\<open>durationMs\<close> is never read, so the delay is
  3000 and not the 100 the caller supplied; and under the name the source does read, a
  supplied \<^verbatim>\<open>duration\<close> of 0 gives 3000 as well.
\<close>

theorem durationMs_is_not_read:
  "timers (snd (showToast ''Saved''
       [(''id'', JStr ''x''), (''autoClose'', JBool True), (''durationMs'', JNum 100)] ''r'' init_state))
     = [(JStr ''x'', JNum 3000)]
   \<and> timers (snd (showToast ''Saved''
       [(''id'', JStr ''x''), (''autoClose'', JBool True), (''duration'', JNum 0)] ''r'' init_state))
     = [(JStr ''x'', JNum 3000)]"
  by (simp add: toast_eval)


lemma removeToast_keeps_other:
  "t \<noteq> tid \<Longrightarrow> map_of (toasts (removeToast t s)) tid = map_of (toasts s) tid"
  by (simp add: removeToast_def map_of_filter_other split: option.splits)

lemma step_keeps_registered:
  assumes "map_of (toasts s) tid = Some el"
    and "tid \<notin> fst ` set (timers s)"
    and "e \<noteq> Remove tid"
  shows "map_of (toasts (step e s)) tid = Some el \<and> tid \<notin> fst ` set (timers (step e s))"
proof (cases e)
  case (Show m opts rnd)
  show ?thesis
  proof (cases "map_of (toasts s) (toast_id opts rnd)")
    case None
    with assms(1) have "toast_id opts rnd \<noteq> tid" by auto
    with None assms(1,2) Show show ?thesis by (simp add: showToast_new map_add_def)
  next
    case (Some el')
    with assms(1,2) Show show ?thesis by (simp add: showToast_existing ensure_wrapper_fields)
  qed
next
  case (Remove t)
  with assms show ?thesis by (simp add: removeToast_keeps_other removeToast_frame)
next
  case (Fire k)
  show ?thesis
  proof (cases "k < length (timers s)")
    case False
    with Fire assms show ?thesis by (simp add: fire_def)
  next
    case True
    then have "timers s ! k \<in> set (timers s)" by simp
    with assms(2) have other: "fst (timers s ! k) \<noteq> tid" by auto
    have "set (take k (timers s) @ drop (Suc k) (timers s)) \<subseteq> set (timers s)"
      using set_take_subset [of k "timers s"] set_drop_subset [of "Suc k" "timers s"] by auto
    with assms(2) have "tid \<notin> fst ` set (take k (timers s) @ drop (Suc k) (timers s))"
      by blast
    with True Fire other assms(1) show ?thesis
      by (simp add: fire_def removeToast_keeps_other removeToast_frame)
  qed
qed

lemma run_keeps_registered:
  "map_of (toasts s) tid = Some el \<Longrightarrow> tid \<notin> fst ` set (timers s) \<Longrightarrow>
   Remove tid \<notin> set es \<Longrightarrow> map_of (toasts (run es s)) tid = Some el"
proof (induction es arbitrary: s)
  case Nil
  then show ?case by simp
next
  case (Cons e es)
  from Cons.prems have "e \<noteq> Remove tid" by auto
  with Cons.prems have "map_of (toasts (step e s)) tid = Some el
      \<and> tid \<notin> fst ` set (timers (step e s))"
    by (intro step_keeps_registered) auto
  with Cons.IH [of "step e s"] Cons.prems show ?case by simp
qed

text \<open>
  Claim C8, as amended. An entry created with \<^verbatim>\<open>autoClose: false\<close> in a reachable state in
  which no timer for its id is pending stays in the registry and in the document through
  every sequence of events without a \<^verbatim>\<open>removeToast\<close> call for its id, whatever timers
  fire.
\<close>

theorem autoClose_false_stays:
  assumes "toasts_inv s"
    and "map_of (toasts s) (toast_id opts rnd) = None"
    and "get_prop opts ''autoClose'' = JBool False"
    and "toast_id opts rnd \<notin> fst ` set (timers s)"
    and "Remove (toast_id opts rnd) \<notin> set es"
  shows "map_of (toasts (run es (snd (showToast message opts rnd s)))) (toast_id opts rnd)
           = Some (length (elements s))
       \<and> length (elements s) \<in> set (children (run es (snd (showToast message opts rnd s))))"
proof -
  let ?s1 = "snd (showToast message opts rnd s)"
  have reg: "map_of (toasts ?s1) (toast_id opts rnd) = Some (length (elements s))"
    using assms(2) by (simp add: showToast_new map_add_def)
  have none: "toast_id opts rnd \<notin> fst ` set (timers ?s1)"
    using assms(2,3,4) by (simp add: showToast_new)
  have kept: "map_of (toasts (run es ?s1)) (toast_id opts rnd) = Some (length (elements s))"
    using reg none assms(5) by (rule run_keeps_registered)
  have "toasts_inv (run es ?s1)"
    using assms(1) by (simp add: inv_showToast inv_run)
  then have "children (run es ?s1) = map snd (toasts (run es ?s1))"
    by (simp add: toasts_inv_def)
  moreover from kept have "(toast_id opts rnd, length (elements s)) \<in> set (toasts (run es ?s1))"
    by (rule map_of_SomeD)
  ultimately have "length (elements s) \<in> set (children (run es ?s1))" by force
  with kept show ?thesis by simp
qed

text \<open>
  The \<^verbatim>\<open>sending\<close> toast of the contact form, created while the timer of another toast is
  pending; that timer fires, the toast is updated, a further timer event comes.
\<close>

theorem autoClose_false_stays_witness:
  "toasts_inv (snd (showToast ''Saved'' [] ''abc'' init_state))
   \<and> map_of (toasts (snd (showToast ''Saved'' [] ''abc'' init_state)))
        (toast_id [(''autoClose'', JBool False), (''id'', JStr ''sending'')] ''r'') = None
   \<and> get_prop [(''autoClose'', JBool False), (''id'', JStr ''sending'')] ''autoClose'' = JBool False
   \<and> toast_id [(''autoClose'', JBool False), (''id'', JStr ''sending'')] ''r''
        \<notin> fst ` set (timers (snd (showToast ''Saved'' [] ''abc'' init_state)))
   \<and> Remove (toast_id [(''autoClose'', JBool False), (''id'', JStr ''sending'')] ''r'')
        \<notin> set [Fire 0, Show ''Still sending'' [(''id'', JStr ''sending'')] ''q'', Fire 0]
   \<and> map_of (toasts (run [Fire 0, Show ''Still sending'' [(''id'', JStr ''sending'')] ''q'', Fire 0]
        (snd (showToast ''Sending message...'' [(''autoClose'', JBool False), (''id'', JStr ''sending'')] ''r''
          (snd (showToast ''Saved'' [] ''abc'' init_state)))))) (JStr ''sending'') = Some 1
   \<and> children (run [Fire 0, Show ''Still sending'' [(''id'', JStr ''sending'')] ''q'', Fire 0]
        (snd (showToast ''Sending message...'' [(''autoClose'', JBool False), (''id'', JStr ''sending'')] ''r''
          (snd (showToast ''Saved'' [] ''abc'' init_state))))) = [1]"
  using autoClose_false_stays
    [of "snd (showToast ''Saved'' [] ''abc'' init_state)"
        "[(''autoClose'', JBool False), (''id'', JStr ''sending'')]" "''r''"
        "[Fire 0, Show ''Still sending'' [(''id'', JStr ''sending'')] ''q'', Fire 0]"
        "''Sending message...''"]
  by (simp add: toast_eval)

text \<open>
  Claim C8 as stated fails: the entry \<^verbatim>\<open>job\<close> is created with \<^verbatim>\<open>autoClose: false\<close> while the
  timer of an earlier, already removed entry of the same id is pending. No \<^verbatim>\<open>removeToast\<close>
  call follows the creation; the timer fires and the entry is gone.
\<close>

theorem autoClose_false_removed_by_stale_timer:
  "get_prop [(''id'', JStr ''job''), (''autoClose'', JBool False)] ''autoClose'' = JBool False
   \<and> map_of (toasts (run [Show ''Queued'' [(''id'', JStr ''job'')] ''r'',
                           Remove (JStr ''job'')] init_state)) (JStr ''job'') = None
   \<and> map_of (toasts (run [Show ''Queued'' [(''id'', JStr ''job'')] ''r'',
                           Remove (JStr ''job''),
                           Show ''Working'' [(''id'', JStr ''job''), (''autoClose'', JBool False)] ''r'']
                       init_state)) (JStr ''job'') = Some 1
   \<and> children (run [Show ''Queued'' [(''id'', JStr ''job'')] ''r'',
                           Remove (JStr ''job''),
                           Show ''Working'' [(''id'', JStr ''job''), (''autoClose'', JBool False)] ''r'']
                       init_state) = [1]
   \<and> map_of (toasts (run [Show ''Queued'' [(''id'', JStr ''job'')] ''r'',
                           Remove (JStr ''job''),
                           Show ''Working'' [(''id'', JStr ''job''), (''autoClose'', JBool False)] ''r'',
                           Fire 0]
                       init_state)) (JStr ''job'') = None
   \<and> children (run [Show ''Queued'' [(''id'', JStr ''job'')] ''r'',
                           Remove (JStr ''job''),
                           Show ''Working'' [(''id'', JStr ''job''), (''autoClose'', JBool False)] ''r'',
                           Fire 0]
                       init_state) = []"
  by (simp add: toast_eval)

lemma count_without_nth:
  "k < length xs \<Longrightarrow>
   length (filter P (take k xs @ drop (Suc k) xs)) =
   length (filter P xs) - (if P (xs ! k) then 1 else 0)"
proof -
  assume "k < length xs"
  then have "xs = take k xs @ xs ! k # drop (Suc k) xs" by (rule id_take_nth_drop)
  then have "length (filter P xs) =
      length (filter P (take k xs @ xs ! k # drop (Suc k) xs))" by simp
  then show ?thesis by simp
qed

lemma step_timer_budget:
  assumes "timers_of tid s \<le> (if map_of (toasts s) tid = None then 0 else 1)"
    and "e \<noteq> Remove tid"
  shows "timers_of tid (step e s) \<le> (if map_of (toasts (step e s)) tid = None then 0 else 1)"
proof (cases e)
  case (Show m opts rnd)
  show ?thesis
  proof (cases "map_of (toasts s) (toast_id opts rnd)")
    case None
    with assms(1) Show show ?thesis
      by (cases "toast_id opts rnd = tid")
         (auto simp: showToast_new map_add_def timers_of_def split: option.splits if_splits)
  next
    case (Some el)
    with assms(1) Show show ?thesis
      by (simp add: showToast_existing ensure_wrapper_fields timers_of_def)
  qed
next
  case (Remove t)
  with assms show ?thesis
    by (simp add: removeToast_keeps_other removeToast_frame timers_of_def)
next
  case (Fire k)
  show ?thesis
  proof (cases "k < length (timers s)")
    case False
    with Fire assms(1) show ?thesis by (simp add: fire_def)
  next
    case True
    let ?ts = "take k (timers s) @ drop (Suc k) (timers s)"
    have cnt: "length (filter (\<lambda>t. fst t = tid) ?ts) =
        timers_of tid s - (if fst (timers s ! k) = tid then 1 else 0)"
      using count_without_nth [OF True, of "\<lambda>t. fst t = tid"] by (simp add: timers_of_def)
    have after: "timers_of tid (fire k s) = length (filter (\<lambda>t. fst t = tid) ?ts)"
      using True by (simp add: fire_def timers_of_def removeToast_frame)
    show ?thesis
    proof (cases "fst (timers s ! k) = tid")
      case True
      with cnt after assms(1) have "timers_of tid (fire k s) = 0"
        by (simp split: if_splits)
      with Fire show ?thesis by simp
    next
      case False
      with True have "map_of (toasts (fire k s)) tid = map_of (toasts s) tid"
        by (simp add: fire_def removeToast_keeps_other)
      with False cnt after assms(1) Fire show ?thesis by simp
    qed
  qed
qed

lemma run_timer_budget:
  "timers_of tid s \<le> (if map_of (toasts s) tid = None then 0 else 1) \<Longrightarrow>
   Remove tid \<notin> set es \<Longrightarrow>
   timers_of tid (run es s) \<le> (if map_of (toasts (run es s)) tid = None then 0 else 1)"
proof (induction es arbitrary: s)
  case Nil
  then show ?case by simp
next
  case (Cons e es)
  from Cons.prems have "e \<noteq> Remove tid" by auto
  with Cons.prems(1) have "timers_of tid (step e s)
      \<le> (if map_of (toasts (step e s)) tid = None then 0 else 1)"
    by (rule step_timer_budget)
  with Cons.IH [of "step e s"] Cons.prems(2) show ?case by simp
qed

text \<open>
  Where a stale timer can come from. Along a run in which \<^verbatim>\<open>removeToast\<close> is never called
  for an id, at most one timer for it is pending while it is registered and none while it
  is not: a timer that outlives its entry needs an earlier call of \<^verbatim>\<open>removeToast\<close> for the
  id. So on a page whose code never removes the id by hand, an entry created with
  \<^verbatim>\<open>autoClose: false\<close> meets no pending timer.
\<close>

lemma no_stale_timer_without_remove:
  assumes "Remove tid \<notin> set es"
    and "map_of (toasts (run es init_state)) tid = None"
  shows "tid \<notin> fst ` set (timers (run es init_state))"
proof -
  have "timers_of tid init_state \<le> (if map_of (toasts init_state) tid = None then 0 else 1)"
    by (simp add: timers_of_def init_state_def)
  from run_timer_budget [OF this assms(1)] assms(2)
  have "filter (\<lambda>t. fst t = tid) (timers (run es init_state)) = []"
    by (simp add: timers_of_def)
  then show ?thesis by (auto simp: filter_empty_conv)
qed

text \<open>
  Claim C7. \<^verbatim>\<open>removeToast\<close> is idempotent, and removing an id that is not in the registry
  is a no-op: the call returns (the model has no failing branch, as the source has no
  throwing one) and the whole state, registry, document and pending timers, is what it
  was.
\<close>

theorem removeToast_absent_noop:
  "(map_of (toasts s) tid = None \<longrightarrow> removeToast tid s = s)
   \<and> removeToast tid (removeToast tid s) = removeToast tid s"
proof -
  have gone: "map_of (filter (\<lambda>p. fst p \<noteq> tid) xs) tid = None" for xs :: "(jsval \<times> nat) list"
    by (induction xs) auto
  show ?thesis
    by (auto simp: removeToast_def gone split: option.splits)
qed

theorem removeToast_absent_noop_witness:
  "map_of (toasts init_state) (JStr ''x'') = None
   \<and> removeToast (JStr ''x'') init_state = init_state"
  using removeToast_absent_noop [of init_state "JStr ''x''"]
  by (simp add: init_state_def)


section \<open>Properties of the active-link tracker\<close>

lemma sort_by_Cons: "sort_by cmp (x # xs) = insert_by cmp x (sort_by cmp xs)"
  by (simp add: sort_by_def)

lemma insert_by_not_Nil: "insert_by cmp x ys \<noteq> []"
  by (cases ys) auto

lemma sort_by_Nil_iff: "sort_by cmp xs = [] \<longleftrightarrow> xs = []"
  by (cases xs) (simp_all add: sort_by_def insert_by_not_Nil)

lemma sort_by_head:
  "sort_by by_ratio_desc xs = v # rest \<Longrightarrow>
   v \<in> set xs \<and> (\<forall>e \<in> set xs. intersectionRatio e \<le> intersectionRatio v)"
proof (induction xs arbitrary: v rest)
  case Nil
  then show ?case by (simp add: sort_by_def)
next
  case (Cons x xs)
  show ?case
  proof (cases "sort_by by_ratio_desc xs")
    case Nil
    then have "xs = []" by (simp add: sort_by_Nil_iff)
    with Cons.prems show ?thesis by (simp add: sort_by_def)
  next
    case (Cons v' rest')
    then have IH: "v' \<in> set xs" "\<forall>e \<in> set xs. intersectionRatio e \<le> intersectionRatio v'"
      using Cons.IH by blast+
    show ?thesis
    proof (cases "by_ratio_desc x v' \<le> 0")
      case True
      with Cons Cons.prems have "v = x" by (simp add: sort_by_Cons)
      moreover from True have "intersectionRatio v' \<le> intersectionRatio x"
        by (simp add: by_ratio_desc_def)
      ultimately show ?thesis using IH by force
    next
      case False
      with Cons Cons.prems have "v = v'" by (simp add: sort_by_Cons)
      moreover from False have "intersectionRatio x \<le> intersectionRatio v'"
        by (simp add: by_ratio_desc_def)
      ultimately show ?thesis using IH by auto
    qed
  qed
qed

lemma most_visible_None_iff:
  "most_visible entries = None \<longleftrightarrow> (\<forall>e \<in> set entries. \<not> isIntersecting e)"
proof -
  have "most_visible entries = None \<longleftrightarrow> sort_by by_ratio_desc (filter isIntersecting entries) = []"
    by (simp add: most_visible_def split: list.splits)
  then show ?thesis by (simp add: sort_by_Nil_iff filter_empty_conv)
qed

lemma most_visible_Some:
  "most_visible entries = Some v \<Longrightarrow>
   v \<in> set entries \<and> isIntersecting v
   \<and> (\<forall>e \<in> set entries. isIntersecting e \<longrightarrow> intersectionRatio e \<le> intersectionRatio v)"
proof -
  assume "most_visible entries = Some v"
  then obtain rest where "sort_by by_ratio_desc (filter isIntersecting entries) = v # rest"
    by (auto simp: most_visible_def split: list.splits)
  from sort_by_head [OF this] show ?thesis by auto
qed

lemma is_active_update_link:
  "is_active (update_link blue sid l) \<longleftrightarrow> href l = Some (CHR ''#'' # sid)"
  by (simp add: update_link_def is_active_def classList_add_def classList_remove_def)

lemma href_update_link: "href (update_link blue sid l) = href l"
  by (simp add: update_link_def)






lemma href_observer_callback:
  "map href (observer_callback blue entries links) = map href links"
  by (simp add: observer_callback_def href_update_link split: option.splits)

lemma set_map_filter: "x \<in> set (List.map_filter f xs) \<longleftrightarrow> (\<exists>y \<in> set xs. f y = Some x)"
  by (induction xs) (auto simp: map_filter_simps split: option.splits)

lemma active_after_update:
  "filter is_active (map (update_link blue sid) links) =
   map (update_link blue sid) (filter (\<lambda>l. href l = Some (CHR ''#'' # sid)) links)"
  by (induction links) (simp_all add: is_active_update_link)

lemma callback_active_count:
  "most_visible entries = Some v \<Longrightarrow>
   length (filter is_active (observer_callback blue entries links)) =
   length (filter (\<lambda>l. href l = Some (CHR ''#'' # target_id v)) links)"
  by (simp add: observer_callback_def active_after_update)

lemma link_section_iff:
  "link_section doc l = Some sid \<longleftrightarrow>
   href l = Some (CHR ''#'' # sid) \<and> sid \<noteq> [] \<and> sid \<in> set doc"
  by (cases "href l")
     (auto simp: link_section_def startsWith_hash_def getElementById_def Let_def
           split: list.splits if_splits)

lemma link_section_by_href:
  "href a = href b \<Longrightarrow> link_section doc a = link_section doc b"
  by (simp add: link_section_def)

lemma sections_by_href:
  "map href a = map href b \<Longrightarrow> sections doc a = sections doc b"
proof (induction a arbitrary: b)
  case Nil
  then show ?case by (simp add: sections_def)
next
  case (Cons x a)
  then obtain y b' where b: "b = y # b'" "href x = href y" "map href a = map href b'"
    by (cases b) auto
  from Cons.IH [OF b(3)] link_section_by_href [OF b(2), of doc] b(1)
  show ?case by (simp add: sections_def map_filter_simps split: option.splits)
qed

lemma count_map_filter:
  "length (filter (\<lambda>y. f y = Some x) xs) = length (filter (\<lambda>z. z = x) (List.map_filter f xs))"
  by (induction xs) (auto simp: map_filter_simps split: option.splits)

lemma one_link_per_section:
  assumes "distinct (sections doc links)" and "sid \<in> set (sections doc links)"
  shows "length (filter (\<lambda>l. href l = Some (CHR ''#'' # sid)) links) = 1"
proof -
  from assms(2) obtain l where "link_section doc l = Some sid"
    by (auto simp: sections_def set_map_filter)
  then have ok: "sid \<noteq> []" "sid \<in> set doc" by (simp_all add: link_section_iff)
  then have "filter (\<lambda>l. href l = Some (CHR ''#'' # sid)) links =
      filter (\<lambda>l. link_section doc l = Some sid) links"
    by (simp add: link_section_iff)
  then have "length (filter (\<lambda>l. href l = Some (CHR ''#'' # sid)) links) =
      length (filter (\<lambda>z. z = sid) (sections doc links))"
    by (simp add: count_map_filter sections_def)
  also have "\<dots> = 1" using assms by (rule attached_once)
  finally show ?thesis .
qed

lemma observe_one_active:
  assumes "distinct secs"
  shows "sections doc links = secs \<Longrightarrow>
    \<forall>entries \<in> set batches. \<forall>e \<in> set entries. target_id e \<in> set secs \<Longrightarrow>
    (length (filter is_active links) \<le> 1
       \<longrightarrow> length (filter is_active (observe blue batches links)) \<le> 1)
    \<and> ((\<exists>entries \<in> set batches. \<exists>e \<in> set entries. isIntersecting e)
          \<or> length (filter is_active links) = 1
        \<longrightarrow> length (filter is_active (observe blue batches links)) = 1)"
proof (induction batches arbitrary: links)
  case Nil
  then show ?case by simp
next
  case (Cons entries batches)
  let ?links' = "observer_callback blue entries links"
  have secs': "sections doc ?links' = secs"
    using Cons.prems(1) sections_by_href [OF href_observer_callback, of doc blue entries links]
    by simp
  have rest: "\<forall>entries \<in> set batches. \<forall>e \<in> set entries. target_id e \<in> set secs"
    using Cons.prems(2) by simp
  note IH = Cons.IH [OF secs' rest]
  show ?case
  proof (cases "most_visible entries")
    case None
    then have "?links' = links" by (simp add: observer_callback_def)
    moreover from None have "\<forall>e \<in> set entries. \<not> isIntersecting e"
      by (simp add: most_visible_None_iff)
    ultimately show ?thesis using IH by simp
  next
    case (Some v)
    from most_visible_Some [OF Some] have "v \<in> set entries" by simp
    with Cons.prems(2) have "target_id v \<in> set secs" by simp
    with assms Cons.prems(1) have "distinct (sections doc links)"
      "target_id v \<in> set (sections doc links)" by simp_all
    then have "length (filter (\<lambda>l. href l = Some (CHR ''#'' # target_id v)) links) = 1"
      by (rule one_link_per_section)
    with callback_active_count [OF Some, of blue links]
    have "length (filter is_active ?links') = 1" by simp
    with IH show ?thesis by simp
  qed
qed

text \<open>
  Claim C6, as amended. Let no two links be bound to the same section (the sections
  found at initialisation are pairwise distinct), and let every entry the observer
  delivers be for one of these sections. Then after any number of callbacks at most one
  link is marked active if at most one was to begin with, and exactly one is as soon as
  some delivered entry was intersecting. (Links that share the href of the selected
  section are all marked active; see the counterexample below.)
\<close>

theorem one_active_link:
  assumes "distinct (sections doc links)"
    and "\<forall>entries \<in> set batches. \<forall>e \<in> set entries. target_id e \<in> set (sections doc links)"
  shows "(length (filter is_active links) \<le> 1
           \<longrightarrow> length (filter is_active (observe blue batches links)) \<le> 1)
       \<and> ((\<exists>entries \<in> set batches. \<exists>e \<in> set entries. isIntersecting e)
            \<longrightarrow> length (filter is_active (observe blue batches links)) = 1)"
  using observe_one_active [OF assms(1) refl assms(2), of blue] by blast

text \<open>
  Four links, two of them the placeholder \<^verbatim>\<open>#\<close>, which is bound to no section; a batch in
  which \<^verbatim>\<open>about\<close> is the most visible section, then a batch without an intersecting entry.
\<close>

theorem one_active_link_witness:
  "sections [''about'', ''work'', ''contact'']
      [\<lparr>href = Some ''#about'', classList = [''nav-link''], color = []\<rparr>,
       \<lparr>href = Some ''#'', classList = [''nav-link''], color = []\<rparr>,
       \<lparr>href = Some ''#work'', classList = [''nav-link''], color = []\<rparr>,
       \<lparr>href = Some ''#'', classList = [''nav-link''], color = []\<rparr>]
      = [''about'', ''work'']
   \<and> distinct [''about'', ''work'']
   \<and> length (filter is_active
      [\<lparr>href = Some ''#about'', classList = [''nav-link''], color = []\<rparr>,
       \<lparr>href = Some ''#'', classList = [''nav-link''], color = []\<rparr>,
       \<lparr>href = Some ''#work'', classList = [''nav-link''], color = []\<rparr>,
       \<lparr>href = Some ''#'', classList = [''nav-link''], color = []\<rparr>]) \<le> 1
   \<and> map is_active (observe ''#00bfff''
        [[\<lparr>isIntersecting = True, intersectionRatio = 1/2, target_id = ''about''\<rparr>,
          \<lparr>isIntersecting = True, intersectionRatio = 1/4, target_id = ''work''\<rparr>],
         [\<lparr>isIntersecting = False, intersectionRatio = 0, target_id = ''about''\<rparr>]]
        [\<lparr>href = Some ''#about'', classList = [''nav-link''], color = []\<rparr>,
         \<lparr>href = Some ''#'', classList = [''nav-link''], color = []\<rparr>,
         \<lparr>href = Some ''#work'', classList = [''nav-link''], color = []\<rparr>,
         \<lparr>href = Some ''#'', classList = [''nav-link''], color = []\<rparr>])
      = [True, False, False, False]"
  using one_active_link
    [of "[''about'', ''work'', ''contact'']"
        "[\<lparr>href = Some ''#about'', classList = [''nav-link''], color = []\<rparr>,
          \<lparr>href = Some ''#'', classList = [''nav-link''], color = []\<rparr>,
          \<lparr>href = Some ''#work'', classList = [''nav-link''], color = []\<rparr>,
          \<lparr>href = Some ''#'', classList = [''nav-link''], color = []\<rparr>]"
        "[[\<lparr>isIntersecting = True, intersectionRatio = 1/2, target_id = ''about''\<rparr>,
           \<lparr>isIntersecting = True, intersectionRatio = 1/4, target_id = ''work''\<rparr>],
          [\<lparr>isIntersecting = False, intersectionRatio = 0, target_id = ''about''\<rparr>]]"
        "''#00bfff''"]
  by (simp add: sections_def map_filter_def link_section_def startsWith_hash_def
      getElementById_def observer_callback_def most_visible_def sort_by_def by_ratio_desc_def
      update_link_def is_active_def classList_add_def classList_remove_def)

text \<open>
  Claim C6 as stated fails: with two links to \<^verbatim>\<open>#about\<close>, one callback that selects the
  section \<^verbatim>\<open>about\<close> marks both of them active.
\<close>

theorem shared_href_two_active:
  "map is_active (observer_callback ''#00bfff''
     [\<lparr>isIntersecting = True, intersectionRatio = 1, target_id = ''about''\<rparr>]
     [\<lparr>href = Some ''#about'', classList = [''nav-link''], color = []\<rparr>,
      \<lparr>href = Some ''#work'', classList = [''nav-link''], color = []\<rparr>,
      \<lparr>href = Some ''#about'', classList = [''nav-link''], color = []\<rparr>])
   = [True, False, True]"
  by (simp add: observer_callback_def most_visible_def sort_by_def by_ratio_desc_def
      update_link_def is_active_def classList_add_def classList_remove_def)


section \<open>Properties of \<^verbatim>\<open>escapeHtml\<close>\<close>

lemma replaceAll_append:
  "replaceAll c r (xs @ ys) = replaceAll c r xs @ replaceAll c r ys"
  by (simp add: replaceAll_def)

lemma escape_string_Nil: "escape_string [] = []"
  by (simp add: escape_string_def replaceAll_def)

lemma escape_string_Cons: "escape_string (c # s) = escape_string [c] @ escape_string s"
proof -
  have "c # s = [c] @ s" by simp
  then show ?thesis
    unfolding escape_string_def by (simp only: replaceAll_append)
qed

lemma escape_string_single:
  "escape_string [c] =
     (if c = CHR ''&'' then ''&amp;''
      else if c = CHR ''<'' then ''&lt;''
      else if c = CHR ''>'' then ''&gt;''
      else if c = CHR 0x22 then ''&quot;''
      else if c = CHR 0x27 then ''&#39;''
      else [c])"
  by (simp add: escape_string_def replaceAll_def)

lemma amp_ok_plain:
  assumes "c \<noteq> CHR ''&''" and "amp_ok out"
  shows "amp_ok (c # out)"
  unfolding amp_ok_def
proof (intro allI impI)
  fix i
  assume i: "i < length (c # out)" and amp: "(c # out) ! i = CHR ''&''"
  with assms(1) obtain j where j: "i = Suc j" by (cases i) auto
  with i amp have "j < length out" "out ! j = CHR ''&''" by simp_all
  with assms(2) obtain e where "e \<in> set entities" "take (length e) (drop j out) = e"
    by (auto simp: amp_ok_def)
  with j show "\<exists>e \<in> set entities. take (length e) (drop i (c # out)) = e" by auto
qed

lemma amp_ok_entity:
  assumes "e \<in> set entities" and "amp_ok out"
  shows "amp_ok (e @ out)"
  unfolding amp_ok_def
proof (intro allI impI)
  fix i
  assume i: "i < length (e @ out)" and amp: "(e @ out) ! i = CHR ''&''"
  show "\<exists>e' \<in> set entities. take (length e') (drop i (e @ out)) = e'"
  proof (cases "i < length e")
    case True
    have "\<forall>k < length e. e ! k = CHR ''&'' \<longrightarrow> k = 0"
      using assms(1) by (auto simp: entities_def nth_Cons' less_Suc_eq)
    with True amp have "i = 0" by (simp add: nth_append)
    with assms(1) show ?thesis by (intro bexI [of _ e]) simp_all
  next
    case False
    with i amp have "i - length e < length out" "out ! (i - length e) = CHR ''&''"
      by (auto simp: nth_append)
    with assms(2) obtain e' where "e' \<in> set entities"
      "take (length e') (drop (i - length e) out) = e'"
      by (auto simp: amp_ok_def)
    with False show ?thesis by (intro bexI [of _ e']) auto
  qed
qed

lemma amp_ok_escape_string: "amp_ok (escape_string s)"
proof (induction s)
  case Nil
  show ?case by (simp add: escape_string_Nil amp_ok_def)
next
  case (Cons c s)
  have "amp_ok (escape_string [c] @ escape_string s)"
  proof (cases "c \<in> {CHR ''&'', CHR ''<'', CHR ''>'', CHR 0x22, CHR 0x27}")
    case True
    then have "escape_string [c] \<in> set entities"
      by (auto simp: escape_string_single entities_def)
    then show ?thesis using Cons.IH by (rule amp_ok_entity)
  next
    case False
    then have "escape_string [c] = [c]" "c \<noteq> CHR ''&''"
      by (auto simp: escape_string_single)
    then show ?thesis using Cons.IH by (simp add: amp_ok_plain)
  qed
  then show ?case by (simp add: escape_string_Cons [of c s])
qed

lemma raw_free_escape_string:
  "set (escape_string s) \<inter> {CHR ''<'', CHR ''>'', CHR 0x22, CHR 0x27} = {}"
proof (induction s)
  case Nil
  show ?case by (simp add: escape_string_Nil)
next
  case (Cons c s)
  have "set (escape_string [c]) \<inter> {CHR ''<'', CHR ''>'', CHR 0x22, CHR 0x27} = {}"
    by (simp add: escape_string_single)
  with Cons.IH show ?case
    by (simp add: escape_string_Cons [of c s] Int_Un_distrib2)
qed

text \<open>
  Claim C9. For every string \<open>s\<close>, \<^verbatim>\<open>escapeHtml(s)\<close> holds none of the characters \<^verbatim>\<open><\<close>, \<^verbatim>\<open>>\<close>,
  double quote and single quote, and at every position of the output that holds \<^verbatim>\<open>&\<close> one
  of the five entity sequences starts. For \<^verbatim>\<open>null\<close>, \<^verbatim>\<open>undefined\<close> and the empty string the
  result is the empty string.
\<close>

theorem escapeHtml_output:
  "set (escapeHtml (JStr s)) \<inter> {CHR ''<'', CHR ''>'', CHR 0x22, CHR 0x27} = {}
   \<and> (\<forall>i < length (escapeHtml (JStr s)).
         escapeHtml (JStr s) ! i = CHR ''&'' \<longrightarrow>
           (\<exists>e \<in> set entities. take (length e) (drop i (escapeHtml (JStr s))) = e))
   \<and> escapeHtml JNull = []
   \<and> escapeHtml JUndefined = []
   \<and> escapeHtml (JStr []) = []"
proof -
  have "escapeHtml (JStr s) = escape_string s"
    by (cases s) (simp_all add: escapeHtml_def escape_string_Nil)
  with raw_free_escape_string [of s] amp_ok_escape_string [of s] show ?thesis
    by (simp add: amp_ok_def escapeHtml_def)
qed

text \<open>
  A string with all five special characters; the \<^verbatim>\<open>&\<close> at position 10 of the output
  starts \<^verbatim>\<open>&amp;\<close>.
\<close>

theorem escapeHtml_output_witness:
  "escapeHtml (JStr (''<b>R&D'' @ [CHR 0x22, CHR 0x27])) = ''&lt;b&gt;R&amp;D&quot;&#39;''
   \<and> 10 < length (escapeHtml (JStr (''<b>R&D'' @ [CHR 0x22, CHR 0x27])))
   \<and> escapeHtml (JStr (''<b>R&D'' @ [CHR 0x22, CHR 0x27])) ! 10 = CHR ''&''
   \<and> take (length ''&amp;'') (drop 10 (escapeHtml (JStr (''<b>R&D'' @ [CHR 0x22, CHR 0x27])))) = ''&amp;''"
  using escapeHtml_output [of "''<b>R&D'' @ [CHR 0x22, CHR 0x27]"]
  by (simp add: escapeHtml_def escape_string_def replaceAll_def)

end
